theory Spec2Isabelle
  imports Complex_Main "HOL-Library.Product_Lexorder"
begin

section \<open>Outline inference of \<open>challenge1a/pdfextract.py\<close>\<close>

text \<open>
  The development embeds \<open>process_pdf_to_outline\<close>. The PyMuPDF page dictionary is the
  input: a document is a list of pages, a page a list of blocks, a block has a type and
  lines, a line has spans and a bounding box, a span has text, size, flags and colour.
  Font sizes and coordinates are Python floats; every finite float is a rational, so they
  are \<open>rat\<close> here. A Python \<open>str\<close> is a \<open>string\<close> whose characters are the code points
  below 256.
\<close>

subsection \<open>Python primitives\<close>

text \<open>\<open>round(x)\<close> on a float: to the nearest integer, a half to the even neighbour.\<close>

definition py_round :: "rat \<Rightarrow> int" where
  "py_round x =
     (let f = \<lfloor>x\<rfloor>; d = x - of_int f
      in if d < 1 / 2 then f
         else if 1 / 2 < d then f + 1
         else if even f then f else f + 1)"

text \<open>
  The whitespace of \<open>str.strip()\<close>, \<open>str.split()\<close> and of \<open>\s\<close> in a \<open>str\<close> pattern,
  among the code points below 256.
\<close>

definition is_space :: "char \<Rightarrow> bool" where
  "is_space c = ((of_char c :: nat) \<in> {9, 10, 11, 12, 13, 28, 29, 30, 31, 32, 133, 160})"

text \<open>\<open>\d\<close> among the code points below 256, and the class \<open>A-Z\<close>.\<close>

definition is_digit :: "char \<Rightarrow> bool" where
  "is_digit c = (c \<in> set ''0123456789'')"

definition is_upper_AZ :: "char \<Rightarrow> bool" where
  "is_upper_AZ c = (c \<in> set ''ABCDEFGHIJKLMNOPQRSTUVWXYZ'')"

definition py_strip :: "string \<Rightarrow> string" where
  "py_strip s = rev (dropWhile is_space (rev (dropWhile is_space s)))"

fun py_join :: "string \<Rightarrow> string list \<Rightarrow> string" where
  "py_join sep [] = []"
| "py_join sep [x] = x"
| "py_join sep (x # y # ys) = x @ sep @ py_join sep (y # ys)"

text \<open>\<open>s.split()\<close>: the maximal runs of characters that are not whitespace.\<close>

fun split_ws :: "string \<Rightarrow> string \<Rightarrow> string list" where
  "split_ws w [] = (if w = [] then [] else [w])"
| "split_ws w (c # cs) =
     (if is_space c then (if w = [] then split_ws [] cs else w # split_ws [] cs)
      else split_ws (w @ [c]) cs)"

definition py_split :: "string \<Rightarrow> string list" where
  "py_split s = split_ws [] s"

definition endswith :: "string \<Rightarrow> string \<Rightarrow> bool" where
  "endswith s suf = (length suf \<le> length s \<and> drop (length s - length suf) s = suf)"

text \<open>\<open>s.endswith(t)\<close> for a tuple \<open>t\<close> of suffixes.\<close>

definition endswith_any :: "string \<Rightarrow> string list \<Rightarrow> bool" where
  "endswith_any s sufs = list_ex (endswith s) sufs"

text \<open>
  \<open>sorted(xs, key=k, reverse=True)\<close>: descending in the key, elements of equal key in
  their original order. The insertion sort \<open>sort_key\<close> is stable, so sorting by the
  negated key is that list.
\<close>

definition sorted_reverse :: "('a \<Rightarrow> int) \<Rightarrow> 'a list \<Rightarrow> 'a list" where
  "sorted_reverse k xs = sort_key (\<lambda>x. - k x) xs"

subsection \<open>\<open>collections.Counter\<close>\<close>

text \<open>
  A Counter is a dictionary and keeps its keys in insertion order: an association list,
  a new key appended at the end.
\<close>

type_synonym 'k counter = "('k \<times> nat) list"

fun counter_add :: "'k counter \<Rightarrow> 'k \<Rightarrow> nat \<Rightarrow> 'k counter" where
  "counter_add [] k n = [(k, n)]"
| "counter_add ((k', c) # r) k n =
     (if k' = k then (k', c + n) # r else (k', c) # counter_add r k n)"

text \<open>\<open>Counter(iterable)\<close>.\<close>

definition counter_of :: "'k list \<Rightarrow> 'k counter" where
  "counter_of xs = fold (\<lambda>k c. counter_add c k 1) xs []"

text \<open>
  \<open>most_common(1)\<close> is \<open>heapq.nlargest(1, items, key=count)\<close>, which is \<open>max\<close> over the
  items in dictionary order: the first item of greatest count, or no item.
\<close>

fun first_max :: "'k \<times> nat \<Rightarrow> ('k \<times> nat) list \<Rightarrow> 'k \<times> nat" where
  "first_max best [] = best"
| "first_max best (x # xs) = first_max (if snd best < snd x then x else best) xs"

definition most_common1 :: "'k counter \<Rightarrow> ('k \<times> nat) list" where
  "most_common1 c = (case c of [] \<Rightarrow> [] | x # xs \<Rightarrow> [first_max x xs])"

text \<open>\<open>c.most_common(1)[0][0]\<close>; \<open>None\<close> is the IndexError on an empty Counter.\<close>

definition top_key :: "'k counter \<Rightarrow> 'k option" where
  "top_key c = (case most_common1 c of [] \<Rightarrow> None | (k, _) # _ \<Rightarrow> Some k)"

subsection \<open>The data\<close>

text \<open>The style tuple \<open>(round(size), is_bold, color)\<close>.\<close>

type_synonym style = "int \<times> bool \<times> int"

record span =
  s_text :: string
  s_size :: rat
  s_flags :: int
  s_color :: int

type_synonym bbox = "rat \<times> rat \<times> rat \<times> rat"

record text_line =
  l_spans :: "span list"
  l_bbox :: bbox

record block =
  b_type :: int
  b_lines :: "text_line list"

type_synonym page = "block list"
type_synonym document = "page list"

text \<open>An entry of \<open>lines_data\<close>.\<close>

record line_data =
  ld_text :: string
  ld_style :: style
  ld_font_size :: int
  ld_page :: nat
  ld_bbox :: bbox

record heading =
  h_level :: string
  h_text :: string
  h_page :: nat

record outline_document =
  doc_title :: string
  doc_outline :: "heading list"

text \<open>\<open>bbox[1]\<close>, the top edge.\<close>

fun bbox_y0 :: "bbox \<Rightarrow> rat" where
  "bbox_y0 (x0, y0, x1, y1) = y0"

subsection \<open>Step 1: lines and their dominant style\<close>

definition span_style :: "span \<Rightarrow> style" where
  "span_style s = (py_round (s_size s), and (s_flags s) (2 ^ 1) \<noteq> 0, s_color s)"

definition span_styles :: "span list \<Rightarrow> style counter" where
  "span_styles sps = fold (\<lambda>s c. counter_add c (span_style s) (length (s_text s))) sps []"

definition dominant_style :: "span list \<Rightarrow> style option" where
  "dominant_style sps = top_key (span_styles sps)"

record extraction =
  lines_data :: "line_data list"
  style_counts :: "style counter"

text \<open>The body of the loop over the lines of a block; \<open>continue\<close> leaves the state as it is.\<close>

definition scan_line :: "nat \<Rightarrow> text_line \<Rightarrow> extraction \<Rightarrow> extraction" where
  "scan_line page_num line st =
     (if l_spans line = [] then st
      else case dominant_style (l_spans line) of
        None \<Rightarrow> st
      | Some dstyle \<Rightarrow>
          (let line_text = py_strip (py_join '' '' (map s_text (l_spans line)))
           in if line_text = [] then st
              else \<lparr>lines_data = lines_data st @
                       [\<lparr>ld_text = line_text, ld_style = dstyle, ld_font_size = fst dstyle,
                         ld_page = page_num + 1, ld_bbox = l_bbox line\<rparr>],
                     style_counts = counter_add (style_counts st) dstyle 1\<rparr>))"

definition scan_block :: "nat \<Rightarrow> block \<Rightarrow> extraction \<Rightarrow> extraction" where
  "scan_block page_num b st =
     (if b_type b = 0 then fold (scan_line page_num) (b_lines b) st else st)"

definition scan_page :: "nat \<times> page \<Rightarrow> extraction \<Rightarrow> extraction" where
  "scan_page np st = fold (scan_block (fst np)) (snd np) st"

definition extract_lines :: "document \<Rightarrow> extraction" where
  "extract_lines doc = fold scan_page (enumerate 0 doc) \<lparr>lines_data = [], style_counts = []\<rparr>"

subsection \<open>Steps 2 to 5: body style, title, candidates, H1 style\<close>

definition body_style_of :: "style counter \<Rightarrow> style option" where
  "body_style_of sc = (if sc \<noteq> [] then top_key sc else None)"

definition title_of :: "line_data list \<Rightarrow> string" where
  "title_of ls =
     (let page1_lines = sorted_reverse ld_font_size (filter (\<lambda>l. ld_page l = 1) ls)
      in case page1_lines of [] \<Rightarrow> ''Untitled Document'' | l # _ \<Rightarrow> ld_text l)"

definition all_candidates :: "style option \<Rightarrow> string \<Rightarrow> line_data list \<Rightarrow> line_data list" where
  "all_candidates body_style title ls =
     filter (\<lambda>l. Some (ld_style l) \<noteq> body_style \<and> ld_text l \<noteq> title) ls"

text \<open>
  \<open>re.match(r'^\d+\.[\sA-Z]', t)\<close>: the longest run of digits at the start is not empty
  and is followed by a period and one character that is whitespace or in \<open>A-Z\<close>. A
  shorter run of digits cannot be followed by a period, so no other split matches.
\<close>

definition match_numbered :: "string \<Rightarrow> bool" where
  "match_numbered t =
     (takeWhile is_digit t \<noteq> [] \<and>
      (case dropWhile is_digit t of
         p # c # _ \<Rightarrow> p = CHR ''.'' \<and> (is_space c \<or> is_upper_AZ c)
       | _ \<Rightarrow> False))"

text \<open>\<open>re.match(r'^\d+\.\d+', t)\<close>.\<close>

definition match_subnumbered :: "string \<Rightarrow> bool" where
  "match_subnumbered t =
     (takeWhile is_digit t \<noteq> [] \<and>
      (case dropWhile is_digit t of
         p # c # _ \<Rightarrow> p = CHR ''.'' \<and> is_digit c
       | _ \<Rightarrow> False))"

text \<open>The condition of the comprehension \<open>numbered_h1_candidates\<close> on the text of a line.\<close>

definition is_numbered_h1 :: "string \<Rightarrow> bool" where
  "is_numbered_h1 t = (match_numbered t \<and> \<not> match_subnumbered t)"

definition numbered_h1_candidates :: "line_data list \<Rightarrow> line_data list" where
  "numbered_h1_candidates cands = filter (\<lambda>l. is_numbered_h1 (ld_text l)) cands"

definition h1_style_of :: "line_data list \<Rightarrow> style option" where
  "h1_style_of cands =
     (let numbered = numbered_h1_candidates cands
      in if numbered \<noteq> [] then top_key (counter_of (map ld_style numbered))
         else (let candidate_styles = counter_of (map ld_style cands)
               in if candidate_styles \<noteq> [] then top_key candidate_styles else None))"

subsection \<open>Steps 6 to 8: groups, levels, outline\<close>

text \<open>\<open>heading_groups\<close>: a dictionary from style to lines, in insertion order.\<close>

fun group_append :: "('k \<times> 'v list) list \<Rightarrow> 'k \<Rightarrow> 'v \<Rightarrow> ('k \<times> 'v list) list" where
  "group_append [] k v = [(k, [v])]"
| "group_append ((k', vs) # r) k v =
     (if k' = k then (k', vs @ [v]) # r else (k', vs) # group_append r k v)"

definition keeps :: "line_data \<Rightarrow> bool" where
  "keeps l = (length (py_split (ld_text l)) < 40 \<and> \<not> endswith_any (ld_text l) [''.'', '':''])"

definition heading_groups :: "line_data list \<Rightarrow> (style \<times> line_data list) list" where
  "heading_groups cands =
     fold (\<lambda>l g. if keeps l then group_append g (ld_style l) l else g) cands []"

definition subheading_styles :: "int \<Rightarrow> style list \<Rightarrow> style list" where
  "subheading_styles h1_font_size ks = sorted_reverse fst (filter (\<lambda>s. fst s < h1_font_size) ks)"

definition level_map_of :: "int \<Rightarrow> style list \<Rightarrow> (style \<rightharpoonup> string)" where
  "level_map_of h1_font_size ks =
     (let m1 = fold (\<lambda>s m. if h1_font_size \<le> fst s then m(s \<mapsto> ''H1'') else m) ks Map.empty;
          subs = subheading_styles h1_font_size ks;
          m2 = (if 0 < length subs then m1(subs ! 0 \<mapsto> ''H2'') else m1);
          m3 = (if 1 < length subs then m2(subs ! 1 \<mapsto> ''H3'') else m2)
      in m3)"

text \<open>An entry of \<open>outline\<close> before the projection: the level and the line.\<close>

definition build_outline ::
  "(style \<times> line_data list) list \<Rightarrow> (style \<rightharpoonup> string) \<Rightarrow> (string \<times> line_data) list" where
  "build_outline groups level_map =
     concat (map (\<lambda>(s, ls). case level_map s of None \<Rightarrow> [] | Some lv \<Rightarrow> map (Pair lv) ls) groups)"

definition sort_outline :: "(string \<times> line_data) list \<Rightarrow> (string \<times> line_data) list" where
  "sort_outline es = sort_key (\<lambda>e. (ld_page (snd e), bbox_y0 (ld_bbox (snd e)))) es"

definition to_heading :: "string \<times> line_data \<Rightarrow> heading" where
  "to_heading e = \<lparr>h_level = fst e, h_text = ld_text (snd e), h_page = ld_page (snd e)\<rparr>"

text \<open>The sorted outline of lines 87 to 115, for a given candidate list and H1 style.\<close>

definition ranked_outline :: "line_data list \<Rightarrow> style \<Rightarrow> (string \<times> line_data) list" where
  "ranked_outline cands h1_style =
     (let h1_font_size = fst h1_style;
          groups = heading_groups cands;
          level_map = level_map_of h1_font_size (map fst groups)
      in sort_outline (build_outline groups level_map))"

definition process_pdf_to_outline :: "document \<Rightarrow> outline_document" where
  "process_pdf_to_outline doc =
     (let st = extract_lines doc
      in if lines_data st = [] then \<lparr>doc_title = ''Empty Document'', doc_outline = []\<rparr>
         else
           (let body_style = body_style_of (style_counts st);
                title = title_of (lines_data st);
                cands = all_candidates body_style title (lines_data st)
            in case h1_style_of cands of
                 None \<Rightarrow> \<lparr>doc_title = title, doc_outline = []\<rparr>
               | Some h1_style \<Rightarrow>
                   \<lparr>doc_title = title,
                    doc_outline = map to_heading (ranked_outline cands h1_style)\<rparr>))"

subsection \<open>The intermediate values of a document\<close>

definition doc_lines :: "document \<Rightarrow> line_data list" where
  "doc_lines doc = lines_data (extract_lines doc)"

definition doc_body_style :: "document \<Rightarrow> style option" where
  "doc_body_style doc = body_style_of (style_counts (extract_lines doc))"

definition doc_candidates :: "document \<Rightarrow> line_data list" where
  "doc_candidates doc =
     all_candidates (doc_body_style doc) (title_of (doc_lines doc)) (doc_lines doc)"

definition doc_h1_style :: "document \<Rightarrow> style option" where
  "doc_h1_style doc = h1_style_of (doc_candidates doc)"

text \<open>The sorted outline before its projection to headings; empty on the early returns.\<close>

definition doc_ranked :: "document \<Rightarrow> (string \<times> line_data) list" where
  "doc_ranked doc =
     (case doc_h1_style doc of None \<Rightarrow> [] | Some h1 \<Rightarrow> ranked_outline (doc_candidates doc) h1)"

subsection \<open>Notions of the specification\<close>

text \<open>
  The cumulative weight of a key: the sum of \<open>g x\<close> over the elements \<open>x\<close> of key \<open>k\<close>.
  With \<open>g\<close> the length of a span's text it is the cumulative character count of a style;
  with \<open>g\<close> constantly one it is the number of lines of a style.
\<close>

definition key_weight :: "('a \<Rightarrow> 'k) \<Rightarrow> ('a \<Rightarrow> nat) \<Rightarrow> 'a list \<Rightarrow> 'k \<Rightarrow> nat" where
  "key_weight f g xs k = sum_list (map g (filter (\<lambda>x. f x = k) xs))"

text \<open>
  \<open>k\<close> is the key of greatest cumulative weight, ties broken by first-seen order: no key
  weighs more, and every key seen before the first occurrence of \<open>k\<close> weighs strictly less.
\<close>

definition first_mode :: "('a \<Rightarrow> 'k) \<Rightarrow> ('a \<Rightarrow> nat) \<Rightarrow> 'a list \<Rightarrow> 'k \<Rightarrow> bool" where
  "first_mode f g xs k =
     ((\<forall>k'. key_weight f g xs k' \<le> key_weight f g xs k) \<and>
      (\<exists>p q. map f xs = p @ k # q \<and> k \<notin> set p \<and>
         (\<forall>k'\<in>set p. key_weight f g xs k' < key_weight f g xs k)))"


text \<open>
  The invariant of the extraction loop: \<open>style_counts\<close> is the Counter of the styles of
  \<open>lines_data\<close>.
\<close>

definition counts_in_step :: "extraction \<Rightarrow> bool" where
  "counts_in_step st = (style_counts st = counter_of (map ld_style (lines_data st)))"


text \<open>The keys of a list in the order of their first occurrence.\<close>

fun first_seen :: "'a list \<Rightarrow> 'a list" where
  "first_seen [] = []"
| "first_seen (x # xs) = x # filter (\<lambda>y. y \<noteq> x) (first_seen xs)"

text \<open>
  The numbered top-level pattern in the words of the specification: one or more digits, a
  period, a space and then an uppercase letter, and not digits, period, digits. The space
  is read as any whitespace character.
\<close>

definition spec_numbered_top_level :: "string \<Rightarrow> bool" where
  "spec_numbered_top_level t =
     (takeWhile is_digit t \<noteq> [] \<and>
      (case dropWhile is_digit t of
         p # c # u # _ \<Rightarrow> p = CHR ''.'' \<and> is_space c \<and> is_upper_AZ u
       | _ \<Rightarrow> False) \<and>
      \<not> match_subnumbered t)"

subsection \<open>Example documents\<close>

definition mk_span :: "string \<Rightarrow> rat \<Rightarrow> int \<Rightarrow> span" where
  "mk_span t sz fl = \<lparr>s_text = t, s_size = sz, s_flags = fl, s_color = 0\<rparr>"

text \<open>A line of one span, with its top edge at \<open>y\<close>.\<close>

definition mk_line :: "string \<Rightarrow> rat \<Rightarrow> int \<Rightarrow> rat \<Rightarrow> text_line" where
  "mk_line t sz fl y = \<lparr>l_spans = [mk_span t sz fl], l_bbox = (72, y, 500, y + sz)\<rparr>"

definition text_block :: "text_line list \<Rightarrow> block" where
  "text_block ls = \<lparr>b_type = 0, b_lines = ls\<rparr>"




text \<open>A page whose only line is whitespace, beside an image block.\<close>

definition doc_blank :: document where
  "doc_blank = [[text_block [mk_line ''   '' 10 0 40], \<lparr>b_type = 1, b_lines = []\<rparr>]]"

text \<open>Two lines of the largest size on page 1.\<close>

definition doc_title_tie :: document where
  "doc_title_tie =
     [[text_block
        [mk_line ''Small print'' 8 0 20,
         mk_line ''First'' 24 0 40,
         mk_line ''Second'' 24 0 70,
         mk_line ''Body text one'' 10 0 100,
         mk_line ''Body text two'' 10 0 120,
         mk_line ''Body text three'' 10 0 140]]]"

text \<open>An empty first page and text on the second.\<close>

definition doc_no_page1 :: document where
  "doc_no_page1 =
     [[], [text_block [mk_line ''Late heading'' 16 0 40, mk_line ''Body text one'' 10 0 60,
                       mk_line ''Body text two'' 10 0 80]]]"

text \<open>
  The only line of the elected H1 style ends with a colon; one smaller style survives the
  pruning.
\<close>

definition doc_h2_only :: document where
  "doc_h2_only =
     [[text_block
        [mk_line ''Report'' 24 0 40,
         mk_line ''1. Overview:'' 14 0 80,
         mk_line ''Details'' 12 0 100,
         mk_line ''Body text one'' 10 0 120,
         mk_line ''Body text two'' 10 0 140,
         mk_line ''Body text three'' 10 0 160]]]"

text \<open>
  Candidate styles of sizes 20, 14, 12, 11 and 9 around a body of size 10; the numbered
  lines have size 14.
\<close>

definition doc_levels :: document where
  "doc_levels =
     [[text_block
        [mk_line ''Handbook'' 28 0 40,
         mk_line ''PART ONE'' 20 0 80,
         mk_line ''1. Scope'' 14 0 110,
         mk_line ''Body text one'' 10 0 130,
         mk_line ''Purpose'' 12 0 150,
         mk_line ''Body text two'' 10 0 170,
         mk_line ''Detail'' 11 0 190,
         mk_line ''Body text three'' 10 0 210,
         mk_line ''Footnote'' 9 0 230,
         mk_line ''2. Terms'' 14 0 250,
         mk_line ''Body text four'' 10 0 270,
         mk_line ''Body text five'' 10 0 290]]]"

text \<open>
  Two pages whose blocks are not in reading order: on each page the lower line comes
  first in the stream.
\<close>

definition doc_two_pages :: document where
  "doc_two_pages =
     [[text_block [mk_line ''Alpha'' 14 0 300, mk_line ''Body text one'' 10 0 320],
       text_block [mk_line ''Manual'' 24 0 40, mk_line ''Beta'' 12 0 100,
                   mk_line ''Body text two'' 10 0 120]],
      [text_block [mk_line ''Gamma'' 12 0 200, mk_line ''Body text three'' 10 0 220],
       text_block [mk_line ''Delta'' 14 0 50]]]"

text \<open>
  The scenario of the specification: a title of size 24, three bold numbered lines of size
  14, four body lines of size 10, and a caption of size 12 that ends with a period.
\<close>

definition doc_report :: document where
  "doc_report =
     [[text_block
        [mk_line ''Project Report'' 24 0 40,
         mk_line ''1. Intro'' 14 2 80,
         mk_line ''The first paragraph.'' 10 0 100,
         mk_line ''It has two lines'' 10 0 112,
         mk_line ''2. Methods'' 14 2 130,
         mk_line ''The second paragraph.'' 10 0 150,
         mk_line ''Table 4.2: Revenue by Region.'' 12 0 170,
         mk_line ''3. Results'' 14 2 200,
         mk_line ''The third paragraph.'' 10 0 220]]]"

section \<open>Properties\<close>

subsection \<open>The most common key of a Counter\<close>

lemma first_max_split:
  "\<exists>pre post. b # xs = pre @ first_max b xs # post \<and>
     (\<forall>y\<in>set pre. snd y < snd (first_max b xs)) \<and>
     (\<forall>y\<in>set post. snd y \<le> snd (first_max b xs))"
proof (induction xs arbitrary: b)
  case Nil
  show ?case by (rule exI[of _ "[]"], rule exI[of _ "[]"]) simp
next
  case (Cons x xs)
  define b' where "b' = (if snd b < snd x then x else b)"
  define m where "m = first_max b' xs"
  have m: "first_max b (x # xs) = m" by (simp add: m_def b'_def)
  from Cons.IH[of b'] obtain pre post where
    sp: "b' # xs = pre @ m # post" and
    lt: "\<forall>y\<in>set pre. snd y < snd m" and
    le: "\<forall>y\<in>set post. snd y \<le> snd m" unfolding m_def by blast
  have "\<exists>pre post. b # x # xs = pre @ m # post \<and>
     (\<forall>y\<in>set pre. snd y < snd m) \<and> (\<forall>y\<in>set post. snd y \<le> snd m)"
  proof (cases pre)
    case Nil
    with sp have bm: "m = b'" and px: "post = xs" by simp_all
    show ?thesis
    proof (cases "snd b < snd x")
      case True
      then have "m = x" using bm by (simp add: b'_def)
      with True le px have "b # x # xs = [b] @ m # xs \<and> (\<forall>y\<in>set [b]. snd y < snd m) \<and>
          (\<forall>y\<in>set xs. snd y \<le> snd m)"
        by simp
      then show ?thesis by blast
    next
      case False
      then have "m = b" using bm by (simp add: b'_def)
      with False le px have "b # x # xs = [] @ m # (x # xs) \<and> (\<forall>y\<in>set []. snd y < snd m) \<and>
          (\<forall>y\<in>set (x # xs). snd y \<le> snd m)"
        by simp
      then show ?thesis by blast
    qed
  next
    case (Cons p pre')
    with sp have pb: "p = b'" and xs: "xs = pre' @ m # post" by simp_all
    from lt Cons pb have blt: "snd b' < snd m" by simp
    have "snd b < snd m" "snd x < snd m" using blt by (auto simp: b'_def split: if_splits)
    with lt Cons xs have "b # x # xs = (b # x # pre') @ m # post \<and>
        (\<forall>y\<in>set (b # x # pre'). snd y < snd m)"
      by simp
    with le show ?thesis by blast
  qed
  then show ?case unfolding m .
qed

lemma counter_add_map:
  assumes "distinct ks"
  shows "counter_add (map (\<lambda>k. (k, w k)) ks) a n =
     (if a \<in> set ks then map (\<lambda>k. (k, if k = a then w k + n else w k)) ks
      else map (\<lambda>k. (k, w k)) ks @ [(a, n)])"
  using assms by (induction ks) auto

lemma first_seen_set [simp]: "set (first_seen xs) = set xs"
  by (induction xs) auto

lemma first_seen_distinct [simp]: "distinct (first_seen xs)"
  by (induction xs) auto

lemma first_seen_snoc:
  "first_seen (xs @ [x]) = (if x \<in> set xs then first_seen xs else first_seen xs @ [x])"
  by (induction xs) auto

lemma first_seen_split:
  "k \<notin> set p \<Longrightarrow> \<exists>r. first_seen (p @ k # q) = first_seen p @ k # r"
  by (induction p) auto

lemma key_weight_snoc:
  "key_weight f g (xs @ [x]) k = key_weight f g xs k + (if f x = k then g x else 0)"
  by (simp add: key_weight_def)

lemma key_weight_notin: "k \<notin> f ` set xs \<Longrightarrow> key_weight f g xs k = 0"
proof -
  assume "k \<notin> f ` set xs"
  then have "\<forall>y\<in>set xs. f y \<noteq> k" by blast
  then have "filter (\<lambda>y. f y = k) xs = []" by (simp add: filter_empty_conv)
  then show ?thesis by (simp add: key_weight_def)
qed

lemma counter_fold_eq:
  "fold (\<lambda>x c. counter_add c (f x) (g x)) xs [] =
     map (\<lambda>k. (k, key_weight f g xs k)) (first_seen (map f xs))"
proof (induction xs rule: rev_induct)
  case Nil
  show ?case by simp
next
  case (snoc x xs)
  let ?ks = "first_seen (map f xs)"
  have step: "fold (\<lambda>x c. counter_add c (f x) (g x)) (xs @ [x]) [] =
        counter_add (map (\<lambda>k. (k, key_weight f g xs k)) ?ks) (f x) (g x)"
    using snoc.IH by simp
  show ?case
  proof (cases "f x \<in> f ` set xs")
    case True
    have "counter_add (map (\<lambda>k. (k, key_weight f g xs k)) ?ks) (f x) (g x) =
          map (\<lambda>k. (k, if k = f x then key_weight f g xs k + g x else key_weight f g xs k)) ?ks"
      using True by (simp add: counter_add_map)
    also have "\<dots> = map (\<lambda>k. (k, key_weight f g (xs @ [x]) k)) ?ks"
      by (rule map_cong) (auto simp: key_weight_snoc)
    finally have c: "counter_add (map (\<lambda>k. (k, key_weight f g xs k)) ?ks) (f x) (g x) =
        map (\<lambda>k. (k, key_weight f g (xs @ [x]) k)) ?ks" .
    have e: "first_seen (map f (xs @ [x])) = ?ks"
      using True by (simp add: first_seen_snoc)
    show ?thesis unfolding step e by (rule c)
  next
    case False
    have a: "counter_add (map (\<lambda>k. (k, key_weight f g xs k)) ?ks) (f x) (g x) =
          map (\<lambda>k. (k, key_weight f g xs k)) ?ks @ [(f x, g x)]"
      using False by (simp add: counter_add_map)
    have b: "map (\<lambda>k. (k, key_weight f g xs k)) ?ks = map (\<lambda>k. (k, key_weight f g (xs @ [x]) k)) ?ks"
      using False by (intro map_cong) (auto simp: key_weight_snoc)
    have c0: "key_weight f g (xs @ [x]) (f x) = g x"
      using False by (simp add: key_weight_snoc key_weight_notin)
    have c: "counter_add (map (\<lambda>k. (k, key_weight f g xs k)) ?ks) (f x) (g x) =
        map (\<lambda>k. (k, key_weight f g (xs @ [x]) k)) (?ks @ [f x])"
      by (simp only: a) (simp add: b c0)
    have e: "first_seen (map f (xs @ [x])) = ?ks @ [f x]"
      using False by (simp add: first_seen_snoc)
    show ?thesis unfolding step e by (rule c)
  qed
qed


lemma top_key_fold:
  assumes "xs \<noteq> []"
  shows "\<exists>k. top_key (fold (\<lambda>x c. counter_add c (f x) (g x)) xs []) = Some k \<and>
             first_mode f g xs k"
proof -
  let ?W = "key_weight f g xs"
  let ?h = "\<lambda>k. (k, ?W k)"
  let ?ks = "first_seen (map f xs)"
  have C: "fold (\<lambda>x c. counter_add c (f x) (g x)) xs [] = map ?h ?ks"
    by (rule counter_fold_eq)
  have "set ?ks \<noteq> {}" using assms by simp
  then obtain k0 kr where ks: "?ks = k0 # kr" by (cases ?ks) auto
  define m where "m = first_max (?h k0) (map ?h kr)"
  have tk: "top_key (map ?h ?ks) = Some (fst m)"
    by (simp add: ks top_key_def most_common1_def m_def split: prod.splits)
  from first_max_split[of "?h k0" "map ?h kr"] obtain pre post where
    sp: "map ?h ?ks = pre @ m # post" and
    lt: "\<forall>y\<in>set pre. snd y < snd m" and
    le: "\<forall>y\<in>set post. snd y \<le> snd m"
    unfolding m_def ks by auto
  from sp obtain kp kq' where a: "?ks = kp @ kq'" "pre = map ?h kp" "m # post = map ?h kq'"
    by (auto simp: map_eq_append_conv)
  from a(3) obtain k kq where b: "kq' = k # kq" "m = ?h k" "post = map ?h kq"
    by (cases kq') auto
  have split: "?ks = kp @ k # kq" using a(1) b(1) by simp
  have ltk: "\<forall>k'\<in>set kp. ?W k' < ?W k" using lt a(2) b(2) by simp
  have lek: "\<forall>k'\<in>set kq. ?W k' \<le> ?W k" using le b(2,3) by simp
  have all: "\<forall>k'. ?W k' \<le> ?W k"
  proof
    fix k'
    show "?W k' \<le> ?W k"
    proof (cases "k' \<in> set ?ks")
      case True
      then have "k' \<in> set kp \<or> k' = k \<or> k' \<in> set kq" unfolding split by auto
      with ltk lek show ?thesis by (auto simp: less_imp_le)
    next
      case False
      then have "?W k' = 0" by (simp add: key_weight_notin)
      then show ?thesis by simp
    qed
  qed
  have "k \<in> set (map f xs)" using split first_seen_set[of "map f xs"] by (metis in_set_conv_decomp)
  then obtain p q where pq: "map f xs = p @ k # q" "k \<notin> set p"
    by (meson split_list_first)
  from first_seen_split[OF pq(2), of q] obtain r where r: "?ks = first_seen p @ k # r"
    unfolding pq(1) by blast
  have d: "distinct ?ks" by simp
  have "k \<notin> set kp" "k \<notin> set kq" using d unfolding split by simp_all
  moreover have "kp @ k # kq = first_seen p @ k # r" using split r by simp
  ultimately have "kp = first_seen p" by (simp add: append_Cons_eq_iff)
  then have "set kp = set p" by simp
  with ltk have "\<forall>k'\<in>set p. ?W k' < ?W k" by simp
  with pq all have "first_mode f g xs k" unfolding first_mode_def by blast
  moreover have "fst m = k" using b(2) by simp
  ultimately show ?thesis using tk C by simp
qed


lemma key_weight_count: "key_weight f (\<lambda>_. 1) xs k = count_list (map f xs) k"
  by (induction xs) (auto simp: key_weight_def)

lemma first_mode_mem: "first_mode f g xs k \<Longrightarrow> k \<in> f ` set xs"
proof -
  assume "first_mode f g xs k"
  then obtain p q where "map f xs = p @ k # q" unfolding first_mode_def by blast
  then have "k \<in> set (map f xs)" by simp
  then show ?thesis by simp
qed


lemma top_key_counter_of:
  "xs \<noteq> [] \<Longrightarrow> \<exists>k. top_key (counter_of (map f xs)) = Some k \<and> first_mode f (\<lambda>_. 1) xs k"
  unfolding counter_of_def fold_map comp_def by (rule top_key_fold)

subsection \<open>The lines recorded for a document\<close>








subsection \<open>Dominant style of a line\<close>





subsection \<open>The numbered top-level pattern\<close>

lemma not_digit_period: "\<not> is_digit CHR ''.''"
  by (simp add: is_digit_def)

lemma space_not_digit: "is_space c \<Longrightarrow> \<not> is_digit c"
  by (auto simp: is_digit_def is_space_def)

lemma upper_not_digit: "is_upper_AZ c \<Longrightarrow> \<not> is_digit c"
  by (auto simp: is_digit_def is_upper_AZ_def)

lemma digits_prefix:
  assumes "\<forall>d\<in>set ds. is_digit d"
  shows "takeWhile is_digit (ds @ CHR ''.'' # r) = ds"
    and "dropWhile is_digit (ds @ CHR ''.'' # r) = CHR ''.'' # r"
  using assms not_digit_period by (simp_all add: takeWhile_append2 dropWhile_append2)

lemma match_numbered_iff:
  "match_numbered t \<longleftrightarrow>
     (\<exists>ds c rest. t = ds @ CHR ''.'' # c # rest \<and> ds \<noteq> [] \<and> (\<forall>d\<in>set ds. is_digit d) \<and>
        (is_space c \<or> is_upper_AZ c))"
proof
  assume m: "match_numbered t"
  let ?ds = "takeWhile is_digit t"
  from m have ne: "?ds \<noteq> []" by (simp add: match_numbered_def)
  from m obtain c rest where
    d: "dropWhile is_digit t = CHR ''.'' # c # rest" and c: "is_space c \<or> is_upper_AZ c"
    by (auto simp: match_numbered_def split: list.splits)
  have "t = ?ds @ dropWhile is_digit t" by simp
  then have "t = ?ds @ CHR ''.'' # c # rest" using d by simp
  moreover have "\<forall>d\<in>set ?ds. is_digit d" by (auto dest: set_takeWhileD)
  ultimately show "\<exists>ds c rest. t = ds @ CHR ''.'' # c # rest \<and> ds \<noteq> [] \<and>
      (\<forall>d\<in>set ds. is_digit d) \<and> (is_space c \<or> is_upper_AZ c)"
    using ne c by blast
next
  assume "\<exists>ds c rest. t = ds @ CHR ''.'' # c # rest \<and> ds \<noteq> [] \<and> (\<forall>d\<in>set ds. is_digit d) \<and>
        (is_space c \<or> is_upper_AZ c)"
  then obtain ds c rest where t: "t = ds @ CHR ''.'' # c # rest" and ne: "ds \<noteq> []"
    and dg: "\<forall>d\<in>set ds. is_digit d" and c: "is_space c \<or> is_upper_AZ c" by blast
  show "match_numbered t"
    unfolding match_numbered_def t digits_prefix[OF dg] using ne c by simp
qed

lemma match_numbered_not_sub: "match_numbered t \<Longrightarrow> \<not> match_subnumbered t"
proof -
  assume "match_numbered t"
  then obtain ds c rest where t: "t = ds @ CHR ''.'' # c # rest"
    and dg: "\<forall>d\<in>set ds. is_digit d" and c: "is_space c \<or> is_upper_AZ c"
    unfolding match_numbered_iff by blast
  from c have "\<not> is_digit c" using space_not_digit upper_not_digit by blast
  then show ?thesis unfolding match_subnumbered_def t digits_prefix[OF dg] by simp
qed

lemma spec_numbered_imp_match: "spec_numbered_top_level t \<Longrightarrow> match_numbered t"
proof -
  assume s: "spec_numbered_top_level t"
  then have ne: "takeWhile is_digit t \<noteq> []" by (simp add: spec_numbered_top_level_def)
  from s obtain c u r where d: "dropWhile is_digit t = CHR ''.'' # c # u # r" and c: "is_space c"
    unfolding spec_numbered_top_level_def by (auto split: list.splits)
  show ?thesis unfolding match_numbered_def d using ne c by simp
qed

text \<open>
  Claim C2 as stated fails: the code accepts a period followed by a space and a lowercase
  letter, and a period followed at once by an uppercase letter; neither text has a
  period, a space and then an uppercase letter.
\<close>

theorem numbered_pattern_counterexample:
  "is_numbered_h1 ''3. introduction'' \<and> \<not> spec_numbered_top_level ''3. introduction'' \<and>
   is_numbered_h1 ''3.Introduction'' \<and> \<not> spec_numbered_top_level ''3.Introduction''"
  by (simp add: is_numbered_h1_def match_numbered_def match_subnumbered_def
      spec_numbered_top_level_def is_digit_def is_space_def is_upper_AZ_def)

text \<open>
  Claim C2, amended. A line counts as a numbered top-level candidate if and only if its
  text begins with one or more digits, a period, and one character that is whitespace or
  an uppercase letter \<open>A\<close> to \<open>Z\<close>. Such a text never begins with digits, period, digit.
  Every text with digits, a period, a space and an uppercase letter is among them.
\<close>

theorem numbered_pattern:
  "(is_numbered_h1 t \<longleftrightarrow>
     (\<exists>ds c rest. t = ds @ CHR ''.'' # c # rest \<and> ds \<noteq> [] \<and> (\<forall>d\<in>set ds. is_digit d) \<and>
        (is_space c \<or> is_upper_AZ c))) \<and>
   (is_numbered_h1 t \<longrightarrow> \<not> match_subnumbered t) \<and>
   (spec_numbered_top_level t \<longrightarrow> is_numbered_h1 t)"
  using match_numbered_iff[of t] match_numbered_not_sub[of t] spec_numbered_imp_match[of t]
  unfolding is_numbered_h1_def by blast

theorem numbered_pattern_witness:
  "spec_numbered_top_level ''3. Introduction'' \<and> is_numbered_h1 ''3. Introduction'' \<and>
   match_subnumbered ''3.1 Overview'' \<and> \<not> is_numbered_h1 ''3.1 Overview''"
proof -
  have s: "spec_numbered_top_level ''3. Introduction''"
    by (simp add: spec_numbered_top_level_def match_subnumbered_def is_digit_def is_space_def
        is_upper_AZ_def)
  have m: "match_subnumbered ''3.1 Overview''"
    by (simp add: match_subnumbered_def is_digit_def)
  from numbered_pattern[of "''3. Introduction''"] s
  have a: "is_numbered_h1 ''3. Introduction''" by blast
  from numbered_pattern[of "''3.1 Overview''"] m
  have b: "\<not> is_numbered_h1 ''3.1 Overview''" by blast
  from s a m b show ?thesis by blast
qed

subsection \<open>The result in terms of the intermediate values\<close>

lemma process_pdf_to_outline_eq:
  "process_pdf_to_outline doc =
     (if doc_lines doc = [] then \<lparr>doc_title = ''Empty Document'', doc_outline = []\<rparr>
      else \<lparr>doc_title = title_of (doc_lines doc), doc_outline = map to_heading (doc_ranked doc)\<rparr>)"
  by (simp add: process_pdf_to_outline_def Let_def doc_lines_def doc_ranked_def doc_h1_style_def
      doc_candidates_def doc_body_style_def split: option.splits)


subsection \<open>Empty documents\<close>

text \<open>
  Claim C8. A document that yields no line is answered with the title
  \<open>Empty Document\<close> and an empty outline. The function is total: it has a result
  on every document.
\<close>

theorem empty_document_sentinel:
  "doc_lines doc = [] \<Longrightarrow>
     process_pdf_to_outline doc = \<lparr>doc_title = ''Empty Document'', doc_outline = []\<rparr>"
  by (simp add: process_pdf_to_outline_eq)

lemma doc_blank_lines: "doc_lines doc_blank = []"
  by code_simp

theorem empty_document_sentinel_witness:
  "doc_lines doc_blank = [] \<and> doc_lines [] = [] \<and>
   process_pdf_to_outline doc_blank = \<lparr>doc_title = ''Empty Document'', doc_outline = []\<rparr> \<and>
   process_pdf_to_outline [] = \<lparr>doc_title = ''Empty Document'', doc_outline = []\<rparr>"
proof -
  have e: "doc_lines [] = []" by (simp add: doc_lines_def extract_lines_def enumerate_eq_zip)
  from empty_document_sentinel[OF doc_blank_lines] empty_document_sentinel[OF e]
    doc_blank_lines e
  show ?thesis by simp
qed

subsection \<open>Title selection\<close>

lemma sorted_reverse_head:
  assumes "xs \<noteq> []"
  shows "\<exists>a m b r. xs = a @ m # b \<and> sorted_reverse k xs = m # r \<and>
           (\<forall>y\<in>set a. k y < k m) \<and> (\<forall>y\<in>set b. k y \<le> k m)"
proof -
  let ?f = "\<lambda>x. - k x"
  let ?S = "sort_key ?f xs"
  have "length ?S = length xs" by simp
  with assms obtain m r where S: "?S = m # r" by (cases ?S) auto
  have "sorted (map ?f ?S)" by simp
  then have "\<forall>y\<in>set r. ?f m \<le> ?f y" unfolding S by simp
  moreover have "set xs = set (m # r)" using S set_sort[of ?f xs] by simp
  ultimately have mx: "\<forall>y\<in>set xs. k y \<le> k m" by auto
  have "filter (\<lambda>y. ?f y = ?f m) xs = filter (\<lambda>y. ?f y = ?f m) ?S"
    by (simp only: sort_key_stable)
  also have "\<dots> = m # filter (\<lambda>y. ?f y = ?f m) r" unfolding S by simp
  finally obtain a b where ab: "xs = a @ m # b" and na: "\<forall>u\<in>set a. ?f u \<noteq> ?f m"
    unfolding filter_eq_Cons_iff by blast
  have "\<forall>y\<in>set a. k y < k m"
  proof
    fix y assume y: "y \<in> set a"
    then have "k y \<le> k m" using mx ab by simp
    moreover have "k y \<noteq> k m" using na y by auto
    ultimately show "k y < k m" by simp
  qed
  moreover have "\<forall>y\<in>set b. k y \<le> k m" using mx ab by simp
  ultimately show ?thesis using ab S unfolding sorted_reverse_def by blast
qed

text \<open>
  Claim C7. For a document with at least one line: when no line is on page 1 the title is
  \<open>Untitled Document\<close>; otherwise the title is the text of a page-1 line \<open>m\<close>
  such that every page-1 line before \<open>m\<close> has a strictly smaller font size and every
  page-1 line after \<open>m\<close> has a font size that is at most that of \<open>m\<close>: the first
  page-1 line of the largest font size.
\<close>

theorem title_selection:
  assumes "doc_lines doc \<noteq> []"
  shows "let p1 = filter (\<lambda>l. ld_page l = 1) (doc_lines doc);
             t = doc_title (process_pdf_to_outline doc)
         in (p1 = [] \<longrightarrow> t = ''Untitled Document'') \<and>
            (p1 \<noteq> [] \<longrightarrow>
               (\<exists>a m b. p1 = a @ m # b \<and> t = ld_text m \<and>
                  (\<forall>l\<in>set a. ld_font_size l < ld_font_size m) \<and>
                  (\<forall>l\<in>set b. ld_font_size l \<le> ld_font_size m)))"
proof -
  let ?p1 = "filter (\<lambda>l. ld_page l = 1) (doc_lines doc)"
  have t: "doc_title (process_pdf_to_outline doc) = title_of (doc_lines doc)"
    using assms by (simp add: process_pdf_to_outline_eq)
  have e: "?p1 = [] \<longrightarrow> title_of (doc_lines doc) = ''Untitled Document''"
    by (simp add: title_of_def sorted_reverse_def)
  have n: "?p1 \<noteq> [] \<longrightarrow>
               (\<exists>a m b. ?p1 = a @ m # b \<and> title_of (doc_lines doc) = ld_text m \<and>
                  (\<forall>l\<in>set a. ld_font_size l < ld_font_size m) \<and>
                  (\<forall>l\<in>set b. ld_font_size l \<le> ld_font_size m))"
  proof
    assume "?p1 \<noteq> []"
    from sorted_reverse_head[OF this, of ld_font_size] obtain a m b r where
      "?p1 = a @ m # b" "sorted_reverse ld_font_size ?p1 = m # r"
      "\<forall>y\<in>set a. ld_font_size y < ld_font_size m" "\<forall>y\<in>set b. ld_font_size y \<le> ld_font_size m"
      by blast
    moreover from this(2) have "title_of (doc_lines doc) = ld_text m"
      by (simp add: title_of_def)
    ultimately show "\<exists>a m b. ?p1 = a @ m # b \<and> title_of (doc_lines doc) = ld_text m \<and>
                  (\<forall>l\<in>set a. ld_font_size l < ld_font_size m) \<and>
                  (\<forall>l\<in>set b. ld_font_size l \<le> ld_font_size m)" by blast
  qed
  from e n show ?thesis unfolding Let_def t by blast
qed

lemma doc_no_page1_lines:
  "map ld_page (doc_lines doc_no_page1) = [2, 2, 2]"
  by code_simp

lemma doc_title_tie_lines:
  "map (\<lambda>l. (ld_text l, ld_font_size l, ld_page l)) (doc_lines doc_title_tie) =
     [(''Small print'', 8, 1), (''First'', 24, 1), (''Second'', 24, 1),
      (''Body text one'', 10, 1), (''Body text two'', 10, 1), (''Body text three'', 10, 1)]"
  by code_simp

lemma doc_title_tie_title: "doc_title (process_pdf_to_outline doc_title_tie) = ''First''"
  by code_simp

theorem title_selection_witness:
  "doc_lines doc_no_page1 \<noteq> [] \<and>
   filter (\<lambda>l. ld_page l = 1) (doc_lines doc_no_page1) = [] \<and>
   doc_title (process_pdf_to_outline doc_no_page1) = ''Untitled Document'' \<and>
   doc_lines doc_title_tie \<noteq> [] \<and>
   doc_title (process_pdf_to_outline doc_title_tie) = ''First''"
proof -
  have ne: "doc_lines doc_no_page1 \<noteq> []" using doc_no_page1_lines by auto
  have "\<forall>l\<in>set (doc_lines doc_no_page1). ld_page l \<noteq> 1"
  proof
    fix l assume "l \<in> set (doc_lines doc_no_page1)"
    then have "ld_page l \<in> set (map ld_page (doc_lines doc_no_page1))" by simp
    then show "ld_page l \<noteq> 1" unfolding doc_no_page1_lines by auto
  qed
  then have p: "filter (\<lambda>l. ld_page l = 1) (doc_lines doc_no_page1) = []"
    by (simp add: filter_empty_conv)
  from title_selection[OF ne] p
  have u: "doc_title (process_pdf_to_outline doc_no_page1) = ''Untitled Document''"
    by (simp add: Let_def)
  have ne2: "doc_lines doc_title_tie \<noteq> []" using doc_title_tie_lines by auto
  from ne p u ne2 doc_title_tie_title show ?thesis by simp
qed


subsection \<open>Election of the H1 style\<close>

lemma top_key_Nil: "top_key [] = None"
  by (simp add: top_key_def most_common1_def)






subsection \<open>Reading order\<close>

lemma doc_ranked_empty: "doc_lines doc = [] \<Longrightarrow> doc_ranked doc = []"
  by (simp add: doc_ranked_def doc_h1_style_def doc_candidates_def all_candidates_def
      h1_style_of_def numbered_h1_candidates_def counter_of_def)

lemma doc_outline_ranked:
  "doc_outline (process_pdf_to_outline doc) = map to_heading (doc_ranked doc)"
  by (simp add: process_pdf_to_outline_eq doc_ranked_empty)

lemma sort_outline_sorted:
  "sorted (map (\<lambda>e. (ld_page (snd e), bbox_y0 (ld_bbox (snd e)))) (sort_outline es))"
  unfolding sort_outline_def by (rule sorted_sort_key)

lemma doc_ranked_sorted:
  "sorted (map (\<lambda>e. (ld_page (snd e), bbox_y0 (ld_bbox (snd e)))) (doc_ranked doc))"
  by (simp add: doc_ranked_def ranked_outline_def Let_def sort_outline_sorted split: option.splits)

text \<open>
  Claim C9. The outline is the projection of a list of entries in which, whenever an entry
  \<open>a\<close> precedes an entry \<open>b\<close>, the page of \<open>a\<close> is smaller, or the pages are equal
  and the top edge of \<open>a\<close> is at most that of \<open>b\<close>; the pages of the headings are
  the pages of the entries.
\<close>

theorem outline_reading_order:
  "doc_outline (process_pdf_to_outline doc) = map to_heading (doc_ranked doc) \<and>
   (\<forall>i j. i < j \<and> j < length (doc_ranked doc) \<longrightarrow>
      (let a = snd (doc_ranked doc ! i); b = snd (doc_ranked doc ! j)
       in h_page (doc_outline (process_pdf_to_outline doc) ! i) = ld_page a \<and>
          h_page (doc_outline (process_pdf_to_outline doc) ! j) = ld_page b \<and>
          (ld_page a < ld_page b \<or>
           (ld_page a = ld_page b \<and> bbox_y0 (ld_bbox a) \<le> bbox_y0 (ld_bbox b)))))"
proof (intro conjI allI impI)
  show "doc_outline (process_pdf_to_outline doc) = map to_heading (doc_ranked doc)"
    by (rule doc_outline_ranked)
next
  fix i j
  assume ij: "i < j \<and> j < length (doc_ranked doc)"
  let ?key = "\<lambda>e. (ld_page (snd e), bbox_y0 (ld_bbox (snd e)))"
  let ?R = "doc_ranked doc"
  have "map ?key ?R ! i \<le> map ?key ?R ! j"
    using doc_ranked_sorted[of doc] ij by (simp add: sorted_iff_nth_mono del: nth_map)
  then have "?key (?R ! i) \<le> ?key (?R ! j)" using ij by simp
  then have ord: "ld_page (snd (?R ! i)) < ld_page (snd (?R ! j)) \<or>
     (ld_page (snd (?R ! i)) = ld_page (snd (?R ! j)) \<and>
      bbox_y0 (ld_bbox (snd (?R ! i))) \<le> bbox_y0 (ld_bbox (snd (?R ! j))))"
    by auto
  have pi: "h_page (doc_outline (process_pdf_to_outline doc) ! i) = ld_page (snd (?R ! i))"
    using ij by (simp add: doc_outline_ranked to_heading_def)
  have pj: "h_page (doc_outline (process_pdf_to_outline doc) ! j) = ld_page (snd (?R ! j))"
    using ij by (simp add: doc_outline_ranked to_heading_def)
  from ord pi pj
  show "let a = snd (?R ! i); b = snd (?R ! j)
       in h_page (doc_outline (process_pdf_to_outline doc) ! i) = ld_page a \<and>
          h_page (doc_outline (process_pdf_to_outline doc) ! j) = ld_page b \<and>
          (ld_page a < ld_page b \<or>
           (ld_page a = ld_page b \<and> bbox_y0 (ld_bbox a) \<le> bbox_y0 (ld_bbox b)))"
    unfolding Let_def by blast
qed

lemma doc_two_pages_ranked:
  "map (\<lambda>e. (ld_text (snd e), ld_page (snd e), bbox_y0 (ld_bbox (snd e)))) (doc_ranked doc_two_pages) =
     [(''Beta'', 1, 100), (''Alpha'', 1, 300), (''Delta'', 2, 50), (''Gamma'', 2, 200)]"
  by code_simp

lemma doc_two_pages_stream:
  "map ld_text (doc_candidates doc_two_pages) = [''Alpha'', ''Beta'', ''Gamma'', ''Delta'']"
  by code_simp

theorem outline_reading_order_witness:
  "map ld_text (doc_candidates doc_two_pages) = [''Alpha'', ''Beta'', ''Gamma'', ''Delta''] \<and>
   map (\<lambda>e. (ld_text (snd e), ld_page (snd e), bbox_y0 (ld_bbox (snd e)))) (doc_ranked doc_two_pages) =
     [(''Beta'', 1, 100), (''Alpha'', 1, 300), (''Delta'', 2, 50), (''Gamma'', 2, 200)] \<and>
   map h_text (doc_outline (process_pdf_to_outline doc_two_pages)) =
     [''Beta'', ''Alpha'', ''Delta'', ''Gamma'']"
proof -
  from outline_reading_order[of doc_two_pages]
  have "doc_outline (process_pdf_to_outline doc_two_pages) = map to_heading (doc_ranked doc_two_pages)"
    by blast
  then have "map h_text (doc_outline (process_pdf_to_outline doc_two_pages)) =
      map fst (map (\<lambda>e. (ld_text (snd e), ld_page (snd e), bbox_y0 (ld_bbox (snd e)))) (doc_ranked doc_two_pages))"
    by (simp add: to_heading_def comp_def)
  then have "map h_text (doc_outline (process_pdf_to_outline doc_two_pages)) =
     [''Beta'', ''Alpha'', ''Delta'', ''Gamma'']"
    unfolding doc_two_pages_ranked by simp
  with doc_two_pages_stream doc_two_pages_ranked show ?thesis by blast
qed

subsection \<open>H2 without H1\<close>

lemma doc_h2_only_result:
  "doc_h1_style doc_h2_only = Some (14, False, 0) \<and>
   map ld_text (filter (\<lambda>l. ld_style l = (14, False, 0)) (doc_candidates doc_h2_only)) =
     [''1. Overview:''] \<and>
   filter keeps (filter (\<lambda>l. ld_style l = (14, False, 0)) (doc_candidates doc_h2_only)) = [] \<and>
   map fst (heading_groups (doc_candidates doc_h2_only)) = [(12, False, 0)] \<and>
   process_pdf_to_outline doc_h2_only =
     \<lparr>doc_title = ''Report'',
      doc_outline = [\<lparr>h_level = ''H2'', h_text = ''Details'', h_page = 1\<rparr>]\<rparr>"
  by code_simp

text \<open>
  Claim C10. There is a document in which every candidate line of the elected H1 style is
  removed by the pruning, every surviving style group has a font size strictly below that
  of the H1 style, and the outline has a heading of level H2 and none of level H1.
\<close>

theorem h2_without_h1:
  "\<exists>doc s. doc_h1_style doc = Some s \<and>
     filter (\<lambda>l. ld_style l = s) (doc_candidates doc) \<noteq> [] \<and>
     filter keeps (filter (\<lambda>l. ld_style l = s) (doc_candidates doc)) = [] \<and>
     list_all (\<lambda>g. fst g < fst s) (map fst (heading_groups (doc_candidates doc))) \<and>
     ''H1'' \<notin> set (map h_level (doc_outline (process_pdf_to_outline doc))) \<and>
     ''H2'' \<in> set (map h_level (doc_outline (process_pdf_to_outline doc)))"
proof (intro exI[of _ doc_h2_only] exI[of _ "(14, False, 0)"])
  have "filter (\<lambda>l. ld_style l = (14, False, 0)) (doc_candidates doc_h2_only) \<noteq> []"
    using doc_h2_only_result by auto
  with doc_h2_only_result show "doc_h1_style doc_h2_only = Some (14, False, 0) \<and>
     filter (\<lambda>l. ld_style l = (14, False, 0)) (doc_candidates doc_h2_only) \<noteq> [] \<and>
     filter keeps (filter (\<lambda>l. ld_style l = (14, False, 0)) (doc_candidates doc_h2_only)) = [] \<and>
     list_all (\<lambda>g. fst g < fst (14 :: int, False, 0 :: int))
       (map fst (heading_groups (doc_candidates doc_h2_only))) \<and>
     ''H1'' \<notin> set (map h_level (doc_outline (process_pdf_to_outline doc_h2_only))) \<and>
     ''H2'' \<in> set (map h_level (doc_outline (process_pdf_to_outline doc_h2_only)))"
    by simp
qed


subsection \<open>The extraction keeps lines and counts in step\<close>

lemma fold_invariant:
  assumes "\<And>x s. P s \<Longrightarrow> P (f x s)" and "P s"
  shows "P (fold f xs s)"
  using assms(2) by (induction xs arbitrary: s) (simp_all add: assms(1))

lemma counter_of_snoc: "counter_of (xs @ [x]) = counter_add (counter_of xs) x 1"
  by (simp add: counter_of_def)

lemma scan_line_step: "counts_in_step st \<Longrightarrow> counts_in_step (scan_line n l st)"
  by (simp add: counts_in_step_def scan_line_def Let_def counter_of_snoc split: option.splits)

lemma scan_block_step: "counts_in_step st \<Longrightarrow> counts_in_step (scan_block n b st)"
  unfolding scan_block_def by (simp add: fold_invariant[where P = counts_in_step] scan_line_step)

lemma scan_page_step: "counts_in_step st \<Longrightarrow> counts_in_step (scan_page np st)"
  unfolding scan_page_def by (rule fold_invariant[where P = counts_in_step]) (rule scan_block_step)

lemma extract_lines_step: "counts_in_step (extract_lines doc)"
  unfolding extract_lines_def
  by (rule fold_invariant[where P = counts_in_step], rule scan_page_step)
     (simp_all add: counts_in_step_def counter_of_def)

lemma doc_body_style_mode:
  assumes "doc_lines doc \<noteq> []"
  shows "\<exists>b. doc_body_style doc = Some b \<and> first_mode ld_style (\<lambda>_. 1) (doc_lines doc) b"
proof -
  have sc: "style_counts (extract_lines doc) = counter_of (map ld_style (doc_lines doc))"
    using extract_lines_step[of doc] by (simp add: counts_in_step_def doc_lines_def)
  from top_key_counter_of[OF assms, of ld_style] obtain b where
    b: "top_key (counter_of (map ld_style (doc_lines doc))) = Some b"
       "first_mode ld_style (\<lambda>_. 1) (doc_lines doc) b" by blast
  have "counter_of (map ld_style (doc_lines doc)) \<noteq> []"
  proof
    assume "counter_of (map ld_style (doc_lines doc)) = []"
    with b(1) show False by (simp add: top_key_Nil)
  qed
  with b sc show ?thesis by (simp add: doc_body_style_def body_style_of_def)
qed

subsection \<open>Heading groups\<close>

lemma group_append_map:
  assumes "distinct ks"
  shows "group_append (map (\<lambda>k. (k, w k)) ks) a v =
     (if a \<in> set ks then map (\<lambda>k. (k, if k = a then w k @ [v] else w k)) ks
      else map (\<lambda>k. (k, w k)) ks @ [(a, [v])])"
  using assms by (induction ks) auto

lemma heading_groups_snoc:
  "heading_groups (cs @ [c]) =
     (if keeps c then group_append (heading_groups cs) (ld_style c) c else heading_groups cs)"
  by (simp add: heading_groups_def)

lemma heading_groups_eq:
  "heading_groups cands =
     map (\<lambda>s. (s, filter (\<lambda>l. ld_style l = s) (filter keeps cands)))
       (first_seen (map ld_style (filter keeps cands)))"
proof (induction cands rule: rev_induct)
  case Nil
  show ?case by (simp add: heading_groups_def)
next
  case (snoc c cs)
  let ?kept = "filter keeps cs"
  let ?ks = "first_seen (map ld_style ?kept)"
  let ?w = "\<lambda>s. filter (\<lambda>l. ld_style l = s) ?kept"
  show ?case
  proof (cases "keeps c")
    case False
    then show ?thesis using snoc.IH by (simp add: heading_groups_snoc)
  next
    case True
    let ?w' = "\<lambda>s. filter (\<lambda>l. ld_style l = s) (?kept @ [c])"
    have step: "heading_groups (cs @ [c]) = group_append (map (\<lambda>s. (s, ?w s)) ?ks) (ld_style c) c"
      using True snoc.IH by (simp add: heading_groups_snoc)
    have kept: "filter keeps (cs @ [c]) = ?kept @ [c]" using True by simp
    show ?thesis
    proof (cases "ld_style c \<in> ld_style ` set ?kept")
      case True
      have a: "group_append (map (\<lambda>s. (s, ?w s)) ?ks) (ld_style c) c =
          map (\<lambda>s. (s, if s = ld_style c then ?w s @ [c] else ?w s)) ?ks"
        using True by (simp add: group_append_map)
      have b: "map (\<lambda>s. (s, if s = ld_style c then ?w s @ [c] else ?w s)) ?ks =
          map (\<lambda>s. (s, ?w' s)) ?ks"
        by (rule map_cong) auto
      have e: "first_seen (map ld_style (?kept @ [c])) = ?ks"
        using True by (simp add: first_seen_snoc)
      show ?thesis unfolding step kept e by (simp only: a b)
    next
      case False
      have a: "group_append (map (\<lambda>s. (s, ?w s)) ?ks) (ld_style c) c =
          map (\<lambda>s. (s, ?w s)) ?ks @ [(ld_style c, [c])]"
        using False by (simp add: group_append_map)
      have b: "map (\<lambda>s. (s, ?w s)) ?ks = map (\<lambda>s. (s, ?w' s)) ?ks"
        using False by (intro map_cong) auto
      have "\<forall>l\<in>set ?kept. ld_style l \<noteq> ld_style c" using False by (metis imageI)
      then have "?w (ld_style c) = []" by (simp add: filter_empty_conv)
      then have c0: "?w' (ld_style c) = [c]" by simp
      have e: "first_seen (map ld_style (?kept @ [c])) = ?ks @ [ld_style c]"
        using False by (simp add: first_seen_snoc)
      show ?thesis unfolding step kept e by (simp only: a) (simp only: b c0 map_append list.map)
    qed
  qed
qed

lemma heading_groups_keys:
  "map fst (heading_groups cands) = first_seen (map ld_style (filter keeps cands))"
  by (simp add: heading_groups_eq comp_def)

lemma heading_groups_keys_set:
  "set (map fst (heading_groups cands)) = ld_style ` {l \<in> set cands. keeps l}"
  unfolding heading_groups_keys by auto

lemma heading_groups_keys_distinct: "distinct (map fst (heading_groups cands))"
  unfolding heading_groups_keys by simp

lemma build_outline_set:
  "set (build_outline (heading_groups cands) lm) =
     {(lv, l). l \<in> set cands \<and> keeps l \<and> lm (ld_style l) = Some lv}"
  unfolding heading_groups_eq build_outline_def
  by (auto split: option.splits)

lemma ranked_outline_set:
  "set (ranked_outline cands h1) =
     {(lv, l). l \<in> set cands \<and> keeps l \<and>
        level_map_of (fst h1) (map fst (heading_groups cands)) (ld_style l) = Some lv}"
  by (simp add: ranked_outline_def Let_def sort_outline_def build_outline_set)

subsection \<open>The level map\<close>

lemma h1_fold:
  "fold (\<lambda>s m. if h \<le> fst s then m(s \<mapsto> ''H1'') else m) ks m0 s =
     (if s \<in> set ks \<and> h \<le> fst s then Some ''H1'' else m0 s)"
  by (induction ks arbitrary: m0) auto

lemma level_map_of_eq:
  "level_map_of h ks s =
     (let subs = subheading_styles h ks
      in if 1 < length subs \<and> s = subs ! 1 then Some ''H3''
         else if 0 < length subs \<and> s = subs ! 0 then Some ''H2''
         else if s \<in> set ks \<and> h \<le> fst s then Some ''H1'' else None)"
  by (simp add: level_map_of_def Let_def h1_fold)

lemma subheading_styles_set: "set (subheading_styles h ks) = {s \<in> set ks. fst s < h}"
  by (auto simp: subheading_styles_def sorted_reverse_def)

lemma subheading_styles_distinct: "distinct ks \<Longrightarrow> distinct (subheading_styles h ks)"
  by (simp add: subheading_styles_def sorted_reverse_def)

lemma subheading_styles_desc:
  assumes "i < j" "j < length (subheading_styles h ks)"
  shows "fst (subheading_styles h ks ! j) \<le> fst (subheading_styles h ks ! i)"
proof -
  let ?S = "subheading_styles h ks"
  have "sorted (map (\<lambda>s. - fst s) ?S)"
    unfolding subheading_styles_def sorted_reverse_def by (rule sorted_sort_key)
  then have "map (\<lambda>s. - fst s) ?S ! i \<le> map (\<lambda>s. - fst s) ?S ! j"
    using assms by (simp add: sorted_iff_nth_mono del: nth_map)
  then show ?thesis using assms by simp
qed

lemma level_map_of_h1:
  assumes "s \<in> set ks" "h \<le> fst s"
  shows "level_map_of h ks s = Some ''H1''"
proof -
  let ?S = "subheading_styles h ks"
  have n: "s \<notin> set ?S" using assms(2) by (simp add: subheading_styles_set)
  have "\<not> (1 < length ?S \<and> s = ?S ! 1)" using n nth_mem[of 1 ?S] by auto
  moreover have "\<not> (0 < length ?S \<and> s = ?S ! 0)" using n nth_mem[of 0 ?S] by auto
  ultimately show ?thesis using assms by (simp add: level_map_of_eq Let_def)
qed

lemma level_map_of_sub:
  assumes "distinct ks" "i < length (subheading_styles h ks)"
  shows "level_map_of h ks (subheading_styles h ks ! i) =
           (if i = 0 then Some ''H2'' else if i = 1 then Some ''H3'' else None)"
proof -
  let ?S = "subheading_styles h ks"
  have d: "distinct ?S" using assms(1) by (rule subheading_styles_distinct)
  have "?S ! i \<in> set ?S" using assms(2) by simp
  then have lt: "\<not> h \<le> fst (?S ! i)" unfolding subheading_styles_set by auto
  have e1: "1 < length ?S \<Longrightarrow> (?S ! i = ?S ! 1) = (i = 1)"
    using d assms(2) by (simp add: nth_eq_iff_index_eq)
  have e0: "0 < length ?S \<Longrightarrow> (?S ! i = ?S ! 0) = (i = 0)"
    using d assms(2) by (simp add: nth_eq_iff_index_eq)
  show ?thesis
  proof (cases "i = 0")
    case True
    then show ?thesis using assms(2) e1 by (auto simp: level_map_of_eq Let_def)
  next
    case False
    note i0 = this
    show ?thesis
    proof (cases "i = 1")
      case True
      then show ?thesis using assms(2) by (simp add: level_map_of_eq Let_def)
    next
      case False
      have "1 < length ?S" "0 < length ?S" using assms(2) i0 False by auto
      with e1 e0 i0 False lt show ?thesis by (simp add: level_map_of_eq Let_def)
    qed
  qed
qed

lemma level_map_of_cases:
  assumes "level_map_of h ks s = Some lv"
  shows "(lv = ''H1'' \<and> s \<in> set ks \<and> h \<le> fst s) \<or>
         (lv = ''H2'' \<and> 0 < length (subheading_styles h ks) \<and> s = subheading_styles h ks ! 0) \<or>
         (lv = ''H3'' \<and> 1 < length (subheading_styles h ks) \<and> s = subheading_styles h ks ! 1)"
  using assms by (auto simp: level_map_of_eq Let_def split: if_splits)

lemma endswith_single: "endswith s [c] \<longleftrightarrow> (s \<noteq> [] \<and> last s = c)"
  by (cases s rule: rev_cases) (auto simp: endswith_def)

subsection \<open>Level assignment\<close>

text \<open>
  Claim C3. For a document with an H1 style, over the style groups of the candidates that
  survive the pruning: every group whose font size is at least that of the H1 style has
  level H1. The remaining groups, all of strictly smaller font size, are listed without
  repetition in descending order of font size; the first has level H2, the second H3, every
  further one no level. The entries of the outline are exactly the surviving candidate
  lines whose style has a level, each with that level, so a group without a level
  contributes no heading.
\<close>

theorem level_assignment:
  assumes "doc_h1_style doc = Some h1"
  shows "let styles = map fst (heading_groups (doc_candidates doc));
             level = level_map_of (fst h1) styles;
             subs = subheading_styles (fst h1) styles
         in set styles = ld_style ` {l \<in> set (doc_candidates doc). keeps l} \<and>
            distinct styles \<and>
            (\<forall>s\<in>set styles. fst h1 \<le> fst s \<longrightarrow> level s = Some ''H1'') \<and>
            set subs = {s \<in> set styles. fst s < fst h1} \<and>
            distinct subs \<and>
            (\<forall>i j. i < j \<and> j < length subs \<longrightarrow> fst (subs ! j) \<le> fst (subs ! i)) \<and>
            (\<forall>i<length subs. level (subs ! i) =
               (if i = 0 then Some ''H2'' else if i = 1 then Some ''H3'' else None)) \<and>
            set (doc_ranked doc) =
              {(lv, l). l \<in> set (doc_candidates doc) \<and> keeps l \<and> level (ld_style l) = Some lv} \<and>
            doc_outline (process_pdf_to_outline doc) = map to_heading (doc_ranked doc)"
proof -
  let ?styles = "map fst (heading_groups (doc_candidates doc))"
  let ?level = "level_map_of (fst h1) ?styles"
  let ?subs = "subheading_styles (fst h1) ?styles"
  have d: "distinct ?styles" by (rule heading_groups_keys_distinct)
  have 1: "set ?styles = ld_style ` {l \<in> set (doc_candidates doc). keeps l}"
    by (rule heading_groups_keys_set)
  have 3: "\<forall>s\<in>set ?styles. fst h1 \<le> fst s \<longrightarrow> ?level s = Some ''H1''"
    using level_map_of_h1 by blast
  have 4: "set ?subs = {s \<in> set ?styles. fst s < fst h1}" by (rule subheading_styles_set)
  have 5: "distinct ?subs" using d by (rule subheading_styles_distinct)
  have 6: "\<forall>i j. i < j \<and> j < length ?subs \<longrightarrow> fst (?subs ! j) \<le> fst (?subs ! i)"
    using subheading_styles_desc by blast
  have 7: "\<forall>i<length ?subs. ?level (?subs ! i) =
               (if i = 0 then Some ''H2'' else if i = 1 then Some ''H3'' else None)"
    using level_map_of_sub[OF d] by blast
  have 8: "set (doc_ranked doc) =
      {(lv, l). l \<in> set (doc_candidates doc) \<and> keeps l \<and> ?level (ld_style l) = Some lv}"
    using assms by (simp add: doc_ranked_def ranked_outline_set)
  have 9: "doc_outline (process_pdf_to_outline doc) = map to_heading (doc_ranked doc)"
    by (rule doc_outline_ranked)
  from 1 d 3 4 5 6 7 8 9 show ?thesis unfolding Let_def by (intro conjI)
qed

lemma doc_levels_h1: "doc_h1_style doc_levels = Some (14, False, 0)"
  by code_simp

lemma doc_levels_subs:
  "subheading_styles 14 (map fst (heading_groups (doc_candidates doc_levels))) =
     [(12, False, 0), (11, False, 0), (9, False, 0)]"
  by code_simp

lemma doc_levels_styles:
  "map fst (heading_groups (doc_candidates doc_levels)) =
     [(20, False, 0), (14, False, 0), (12, False, 0), (11, False, 0), (9, False, 0)]"
  by code_simp

lemma doc_levels_outline:
  "doc_outline (process_pdf_to_outline doc_levels) =
     [\<lparr>h_level = ''H1'', h_text = ''PART ONE'', h_page = 1\<rparr>,
      \<lparr>h_level = ''H1'', h_text = ''1. Scope'', h_page = 1\<rparr>,
      \<lparr>h_level = ''H2'', h_text = ''Purpose'', h_page = 1\<rparr>,
      \<lparr>h_level = ''H3'', h_text = ''Detail'', h_page = 1\<rparr>,
      \<lparr>h_level = ''H1'', h_text = ''2. Terms'', h_page = 1\<rparr>]"
  by code_simp

theorem level_assignment_witness:
  "doc_h1_style doc_levels = Some (14, False, 0) \<and>
   map fst (heading_groups (doc_candidates doc_levels)) =
     [(20, False, 0), (14, False, 0), (12, False, 0), (11, False, 0), (9, False, 0)] \<and>
   level_map_of 14 (map fst (heading_groups (doc_candidates doc_levels))) (20, False, 0) = Some ''H1'' \<and>
   level_map_of 14 (map fst (heading_groups (doc_candidates doc_levels))) (14, False, 0) = Some ''H1'' \<and>
   level_map_of 14 (map fst (heading_groups (doc_candidates doc_levels))) (12, False, 0) = Some ''H2'' \<and>
   level_map_of 14 (map fst (heading_groups (doc_candidates doc_levels))) (11, False, 0) = Some ''H3'' \<and>
   level_map_of 14 (map fst (heading_groups (doc_candidates doc_levels))) (9, False, 0) = None \<and>
   map h_text (doc_outline (process_pdf_to_outline doc_levels)) =
     [''PART ONE'', ''1. Scope'', ''Purpose'', ''Detail'', ''2. Terms'']"
proof -
  let ?styles = "map fst (heading_groups (doc_candidates doc_levels))"
  let ?level = "level_map_of 14 ?styles"
  let ?subs = "subheading_styles 14 ?styles"
  note la = level_assignment[OF doc_levels_h1, unfolded Let_def fst_conv]
  have a: "\<forall>s\<in>set ?styles. 14 \<le> fst s \<longrightarrow> ?level s = Some ''H1''"
    using la by blast
  have b: "\<forall>i<length ?subs. ?level (?subs ! i) =
               (if i = 0 then Some ''H2'' else if i = 1 then Some ''H3'' else None)"
    using la by blast
  have h20: "?level (20, False, 0) = Some ''H1''"
    using a[rule_format, of "(20, False, 0)"] by (simp add: doc_levels_styles)
  have h14: "?level (14, False, 0) = Some ''H1''"
    using a[rule_format, of "(14, False, 0)"] by (simp add: doc_levels_styles)
  have h12: "?level (12, False, 0) = Some ''H2''"
    using b[rule_format, of 0] by (simp add: doc_levels_subs)
  have h11: "?level (11, False, 0) = Some ''H3''"
    using b[rule_format, of 1] by (simp add: doc_levels_subs)
  have h9: "?level (9, False, 0) = None"
    using b[rule_format, of 2] by (simp add: doc_levels_subs)
  have t: "map h_text (doc_outline (process_pdf_to_outline doc_levels)) =
     [''PART ONE'', ''1. Scope'', ''Purpose'', ''Detail'', ''2. Terms'']"
    by (simp add: doc_levels_outline)
  from doc_levels_h1 doc_levels_styles h20 h14 h12 h11 h9 t show ?thesis by (intro conjI)
qed


subsection \<open>Level cap\<close>

lemma doc_ranked_cases:
  assumes "doc_h1_style doc = Some h1" "e \<in> set (doc_ranked doc)"
  shows "snd e \<in> set (doc_candidates doc) \<and> keeps (snd e) \<and>
    ((fst e = ''H1'' \<and> fst h1 \<le> fst (ld_style (snd e))) \<or>
     (fst e = ''H2'' \<and> fst (ld_style (snd e)) < fst h1 \<and>
        0 < length (subheading_styles (fst h1) (map fst (heading_groups (doc_candidates doc)))) \<and>
        ld_style (snd e) =
          subheading_styles (fst h1) (map fst (heading_groups (doc_candidates doc))) ! 0) \<or>
     (fst e = ''H3'' \<and> fst (ld_style (snd e)) < fst h1 \<and>
        1 < length (subheading_styles (fst h1) (map fst (heading_groups (doc_candidates doc)))) \<and>
        ld_style (snd e) =
          subheading_styles (fst h1) (map fst (heading_groups (doc_candidates doc))) ! 1))"
proof -
  let ?ks = "map fst (heading_groups (doc_candidates doc))"
  let ?S = "subheading_styles (fst h1) ?ks"
  obtain lv l where e: "e = (lv, l)" by (cases e)
  from assms have "e \<in> set (ranked_outline (doc_candidates doc) h1)"
    by (simp add: doc_ranked_def)
  then have c: "l \<in> set (doc_candidates doc)" "keeps l"
    and L: "level_map_of (fst h1) ?ks (ld_style l) = Some lv"
    unfolding ranked_outline_set e by simp_all
  have sub: "\<And>i. i < length ?S \<Longrightarrow> fst (?S ! i) < fst h1"
  proof -
    fix i assume "i < length ?S"
    then have "?S ! i \<in> set ?S" by simp
    then show "fst (?S ! i) < fst h1" unfolding subheading_styles_set by simp
  qed
  from level_map_of_cases[OF L]
  have "(lv = ''H1'' \<and> fst h1 \<le> fst (ld_style l)) \<or>
        (lv = ''H2'' \<and> fst (ld_style l) < fst h1 \<and> 0 < length ?S \<and> ld_style l = ?S ! 0) \<or>
        (lv = ''H3'' \<and> fst (ld_style l) < fst h1 \<and> 1 < length ?S \<and> ld_style l = ?S ! 1)"
    using sub[of 0] sub[of 1] by auto
  with c show ?thesis unfolding e by simp
qed

lemma in_take2:
  "(0 < length S \<and> s = S ! 0) \<or> (1 < length S \<and> s = S ! 1) \<Longrightarrow> s \<in> set (take 2 S)"
proof (erule disjE)
  assume a: "0 < length S \<and> s = S ! 0"
  then have "0 < length S" by (rule conjunct1)
  then have l: "0 < length (take 2 S)" by simp
  have "take 2 S ! 0 = S ! 0" by (rule nth_take) simp
  with a have "s = take 2 S ! 0" by (simp only:)
  with nth_mem[OF l] show ?thesis by (simp only:)
next
  assume a: "1 < length S \<and> s = S ! 1"
  then have "1 < length S" by (rule conjunct1)
  then have l: "1 < length (take 2 S)" by simp
  have "take 2 S ! 1 = S ! 1" by (rule nth_take) simp
  with a have "s = take 2 S ! 1" by (simp only:)
  with nth_mem[OF l] show ?thesis by (simp only:)
qed

lemma doc_ranked_None: "doc_h1_style doc = None \<Longrightarrow> doc_ranked doc = []"
  by (simp add: doc_ranked_def)

text \<open>
  Claim C4, amended. The outline never has a level other than H1, H2 and H3, and at most
  two distinct styles appear in it with a level other than H1: all headings of level H2
  share one style and all headings of level H3 share one style, both of font size strictly
  below that of the H1 style. A heading has level H1 exactly when the font size of its
  style is at least that of the H1 style, so the number of styles of level H1 is not
  bounded. Every style after the second in the descending list of the smaller styles is
  absent from the outline.
\<close>

theorem level_cap:
  "set (map h_level (doc_outline (process_pdf_to_outline doc))) \<subseteq> {''H1'', ''H2'', ''H3''} \<and>
   card ((\<lambda>e. ld_style (snd e)) ` {e \<in> set (doc_ranked doc). fst e \<noteq> ''H1''}) \<le> 2 \<and>
   (\<forall>e\<in>set (doc_ranked doc). \<forall>e'\<in>set (doc_ranked doc).
      fst e = fst e' \<and> fst e \<noteq> ''H1'' \<longrightarrow> ld_style (snd e) = ld_style (snd e')) \<and>
   (\<forall>h1. doc_h1_style doc = Some h1 \<longrightarrow>
      (\<forall>e\<in>set (doc_ranked doc). (fst e = ''H1'') = (fst h1 \<le> fst (ld_style (snd e)))) \<and>
      (\<forall>i. 2 \<le> i \<and>
           i < length (subheading_styles (fst h1) (map fst (heading_groups (doc_candidates doc)))) \<longrightarrow>
           subheading_styles (fst h1) (map fst (heading_groups (doc_candidates doc))) ! i
             \<notin> (\<lambda>e. ld_style (snd e)) ` set (doc_ranked doc)))"
proof (cases "doc_h1_style doc")
  case None
  then have "doc_ranked doc = []" by (rule doc_ranked_None)
  then show ?thesis using None by (simp add: doc_outline_ranked)
next
  case (Some h1)
  let ?ks = "map fst (heading_groups (doc_candidates doc))"
  let ?S = "subheading_styles (fst h1) ?ks"
  let ?R = "doc_ranked doc"
  note cases = doc_ranked_cases[OF Some]
  have lv: "\<forall>e\<in>set ?R. fst e \<in> {''H1'', ''H2'', ''H3''}"
    using cases by blast
  have 1: "set (map h_level (doc_outline (process_pdf_to_outline doc))) \<subseteq> {''H1'', ''H2'', ''H3''}"
    using lv by (auto simp: doc_outline_ranked to_heading_def)
  have sub: "(\<lambda>e. ld_style (snd e)) ` {e \<in> set ?R. fst e \<noteq> ''H1''} \<subseteq> set (take 2 ?S)"
  proof
    fix s assume "s \<in> (\<lambda>e. ld_style (snd e)) ` {e \<in> set ?R. fst e \<noteq> ''H1''}"
    then obtain e where e: "e \<in> set ?R" "fst e \<noteq> ''H1''" "s = ld_style (snd e)" by blast
    from cases[OF e(1)] e(2,3)
    have "(0 < length ?S \<and> s = ?S ! 0) \<or> (1 < length ?S \<and> s = ?S ! 1)" by blast
    then show "s \<in> set (take 2 ?S)" by (rule in_take2)
  qed
  have "card ((\<lambda>e. ld_style (snd e)) ` {e \<in> set ?R. fst e \<noteq> ''H1''}) \<le> card (set (take 2 ?S))"
    by (rule card_mono[OF _ sub]) simp
  also have "\<dots> \<le> length (take 2 ?S)" by (rule card_length)
  also have "\<dots> \<le> 2" by simp
  finally have 2: "card ((\<lambda>e. ld_style (snd e)) ` {e \<in> set ?R. fst e \<noteq> ''H1''}) \<le> 2" .
  have 3: "\<forall>e\<in>set ?R. \<forall>e'\<in>set ?R.
      fst e = fst e' \<and> fst e \<noteq> ''H1'' \<longrightarrow> ld_style (snd e) = ld_style (snd e')"
  proof (intro ballI impI)
    fix e e' assume a: "e \<in> set ?R" "e' \<in> set ?R" "fst e = fst e' \<and> fst e \<noteq> ''H1''"
    from cases[OF a(1)] cases[OF a(2)] a(3) show "ld_style (snd e) = ld_style (snd e')"
      by auto
  qed
  have 4: "\<forall>e\<in>set ?R. (fst e = ''H1'') = (fst h1 \<le> fst (ld_style (snd e)))"
  proof
    fix e assume "e \<in> set ?R"
    from cases[OF this] show "(fst e = ''H1'') = (fst h1 \<le> fst (ld_style (snd e)))"
      by auto
  qed
  have d: "distinct ?S"
    by (rule subheading_styles_distinct) (rule heading_groups_keys_distinct)
  have 5: "\<forall>i. 2 \<le> i \<and> i < length ?S \<longrightarrow> ?S ! i \<notin> (\<lambda>e. ld_style (snd e)) ` set ?R"
  proof (intro allI impI notI)
    fix i assume i: "2 \<le> i \<and> i < length ?S"
    assume "?S ! i \<in> (\<lambda>e. ld_style (snd e)) ` set ?R"
    then obtain e where e: "e \<in> set ?R" "?S ! i = ld_style (snd e)" by blast
    have "?S ! i \<in> set ?S" using i by simp
    then have lt: "fst (?S ! i) < fst h1" unfolding subheading_styles_set by simp
    from cases[OF e(1)] e(2) lt
    have "(0 < length ?S \<and> ?S ! i = ?S ! 0) \<or> (1 < length ?S \<and> ?S ! i = ?S ! 1)" by auto
    then have "i = 0 \<or> i = 1" using d i by (auto simp: nth_eq_iff_index_eq)
    with i show False by simp
  qed
  have 45: "\<forall>h1. doc_h1_style doc = Some h1 \<longrightarrow>
      (\<forall>e\<in>set (doc_ranked doc). (fst e = ''H1'') = (fst h1 \<le> fst (ld_style (snd e)))) \<and>
      (\<forall>i. 2 \<le> i \<and>
           i < length (subheading_styles (fst h1) (map fst (heading_groups (doc_candidates doc)))) \<longrightarrow>
           subheading_styles (fst h1) (map fst (heading_groups (doc_candidates doc))) ! i
             \<notin> (\<lambda>e. ld_style (snd e)) ` set (doc_ranked doc))"
  proof (intro allI impI)
    fix h1' assume "doc_h1_style doc = Some h1'"
    with Some have e: "h1' = h1" by simp
    from 4 5 show "(\<forall>e\<in>set (doc_ranked doc). (fst e = ''H1'') = (fst h1' \<le> fst (ld_style (snd e)))) \<and>
      (\<forall>i. 2 \<le> i \<and>
           i < length (subheading_styles (fst h1') (map fst (heading_groups (doc_candidates doc)))) \<longrightarrow>
           subheading_styles (fst h1') (map fst (heading_groups (doc_candidates doc))) ! i
             \<notin> (\<lambda>e. ld_style (snd e)) ` set (doc_ranked doc))"
      unfolding e by (rule conjI)
  qed
  from 1 2 3 45 show ?thesis by (intro conjI)
qed

theorem level_cap_witness:
  "doc_h1_style doc_levels = Some (14, False, 0) \<and>
   subheading_styles 14 (map fst (heading_groups (doc_candidates doc_levels))) =
     [(12, False, 0), (11, False, 0), (9, False, 0)] \<and>
   (9, False, 0) \<notin> (\<lambda>e. ld_style (snd e)) ` set (doc_ranked doc_levels) \<and>
   map h_level (doc_outline (process_pdf_to_outline doc_levels)) =
     [''H1'', ''H1'', ''H2'', ''H3'', ''H1'']"
proof -
  note q = level_cap[of doc_levels, THEN conjunct2, THEN conjunct2, THEN conjunct2, THEN spec,
      THEN mp, OF doc_levels_h1, THEN conjunct2, unfolded fst_conv]
  from q[rule_format, of 2]
  have a: "(9, False, 0) \<notin> (\<lambda>e. ld_style (snd e)) ` set (doc_ranked doc_levels)"
    unfolding doc_levels_subs by simp
  have b: "map h_level (doc_outline (process_pdf_to_outline doc_levels)) =
     [''H1'', ''H1'', ''H2'', ''H3'', ''H1'']"
    by (simp add: doc_levels_outline)
  from doc_levels_h1 doc_levels_subs a b show ?thesis by (intro conjI)
qed

lemma doc_levels_ranked:
  "map (\<lambda>e. (fst e, ld_style (snd e))) (doc_ranked doc_levels) =
     [(''H1'', (20, False, 0)), (''H1'', (14, False, 0)), (''H2'', (12, False, 0)),
      (''H3'', (11, False, 0)), (''H1'', (14, False, 0))]"
  by code_simp

text \<open>
  Claim C4 as stated fails: in this document the outline draws on four distinct styles,
  two of them with level H1.
\<close>

theorem level_cap_counterexample:
  "map (\<lambda>e. (fst e, ld_style (snd e))) (doc_ranked doc_levels) =
     [(''H1'', (20, False, 0)), (''H1'', (14, False, 0)), (''H2'', (12, False, 0)),
      (''H3'', (11, False, 0)), (''H1'', (14, False, 0))] \<and>
   length (remdups (map (\<lambda>e. ld_style (snd e)) (doc_ranked doc_levels))) = 4 \<and>
   map h_text (doc_outline (process_pdf_to_outline doc_levels)) =
     [''PART ONE'', ''1. Scope'', ''Purpose'', ''Detail'', ''2. Terms'']"
proof -
  have "map (\<lambda>e. ld_style (snd e)) (doc_ranked doc_levels) =
      map snd (map (\<lambda>e. (fst e, ld_style (snd e))) (doc_ranked doc_levels))"
    by (simp add: comp_def)
  then have r: "length (remdups (map (\<lambda>e. ld_style (snd e)) (doc_ranked doc_levels))) = 4"
    unfolding doc_levels_ranked by simp
  have t: "map h_text (doc_outline (process_pdf_to_outline doc_levels)) =
     [''PART ONE'', ''1. Scope'', ''Purpose'', ''Detail'', ''2. Terms'']"
    by (simp add: doc_levels_outline)
  from doc_levels_ranked r t show ?thesis by (intro conjI)
qed

subsection \<open>Filter of the outline\<close>

lemma keeps_iff:
  "keeps l \<longleftrightarrow> length (py_split (ld_text l)) < 40 \<and> \<not> endswith (ld_text l) ''.'' \<and>
     \<not> endswith (ld_text l) '':''"
  by (simp add: keeps_def endswith_any_def)

text \<open>
  Claim C6. Every entry of the outline is a line of the document whose style differs from
  the body style, whose text differs from the title, whose word count is below 40 and
  whose text ends with neither a period nor a colon; every heading of the result has the
  text and page of such a line. The body style is the style of the most lines, each line
  counted once, ties going to the style seen first.
\<close>

theorem outline_filter:
  "(\<forall>e\<in>set (doc_ranked doc).
      snd e \<in> set (doc_lines doc) \<and>
      Some (ld_style (snd e)) \<noteq> doc_body_style doc \<and>
      ld_text (snd e) \<noteq> doc_title (process_pdf_to_outline doc) \<and>
      length (py_split (ld_text (snd e))) < 40 \<and>
      \<not> endswith (ld_text (snd e)) ''.'' \<and> \<not> endswith (ld_text (snd e)) '':'') \<and>
   (\<forall>h\<in>set (doc_outline (process_pdf_to_outline doc)).
      h_text h \<noteq> doc_title (process_pdf_to_outline doc) \<and>
      length (py_split (h_text h)) < 40 \<and>
      \<not> endswith (h_text h) ''.'' \<and> \<not> endswith (h_text h) '':'' \<and>
      (\<exists>l\<in>set (doc_lines doc). h_text h = ld_text l \<and> h_page h = ld_page l \<and>
         Some (ld_style l) \<noteq> doc_body_style doc)) \<and>
   (doc_lines doc \<noteq> [] \<longrightarrow>
      (\<exists>b. doc_body_style doc = Some b \<and> b \<in> ld_style ` set (doc_lines doc) \<and>
         (\<forall>s. count_list (map ld_style (doc_lines doc)) s
                \<le> count_list (map ld_style (doc_lines doc)) b) \<and>
         (\<exists>p q. map ld_style (doc_lines doc) = p @ b # q \<and> b \<notin> set p \<and>
            (\<forall>s\<in>set p. count_list (map ld_style (doc_lines doc)) s
                          < count_list (map ld_style (doc_lines doc)) b))))"
proof -
  let ?R = "doc_ranked doc"
  let ?t = "doc_title (process_pdf_to_outline doc)"
  have A: "\<forall>e\<in>set ?R.
      snd e \<in> set (doc_lines doc) \<and>
      Some (ld_style (snd e)) \<noteq> doc_body_style doc \<and>
      ld_text (snd e) \<noteq> ?t \<and>
      length (py_split (ld_text (snd e))) < 40 \<and>
      \<not> endswith (ld_text (snd e)) ''.'' \<and> \<not> endswith (ld_text (snd e)) '':''"
  proof
    fix e assume e: "e \<in> set ?R"
    then obtain h1 where h1: "doc_h1_style doc = Some h1"
      by (cases "doc_h1_style doc") (auto simp: doc_ranked_def)
    from doc_ranked_cases[OF h1 e] have c: "snd e \<in> set (doc_candidates doc)" and k: "keeps (snd e)"
      by blast+
    from c have l: "snd e \<in> set (doc_lines doc)"
      and b: "Some (ld_style (snd e)) \<noteq> doc_body_style doc"
      and t: "ld_text (snd e) \<noteq> title_of (doc_lines doc)"
      by (simp_all add: doc_candidates_def all_candidates_def)
    from l have "doc_lines doc \<noteq> []" by auto
    then have "?t = title_of (doc_lines doc)" by (simp add: process_pdf_to_outline_eq)
    with l b t k show "snd e \<in> set (doc_lines doc) \<and>
      Some (ld_style (snd e)) \<noteq> doc_body_style doc \<and>
      ld_text (snd e) \<noteq> ?t \<and>
      length (py_split (ld_text (snd e))) < 40 \<and>
      \<not> endswith (ld_text (snd e)) ''.'' \<and> \<not> endswith (ld_text (snd e)) '':''"
      by (simp add: keeps_iff)
  qed
  have B: "\<forall>h\<in>set (doc_outline (process_pdf_to_outline doc)).
      h_text h \<noteq> ?t \<and>
      length (py_split (h_text h)) < 40 \<and>
      \<not> endswith (h_text h) ''.'' \<and> \<not> endswith (h_text h) '':'' \<and>
      (\<exists>l\<in>set (doc_lines doc). h_text h = ld_text l \<and> h_page h = ld_page l \<and>
         Some (ld_style l) \<noteq> doc_body_style doc)"
  proof
    fix h assume "h \<in> set (doc_outline (process_pdf_to_outline doc))"
    then obtain e where e: "e \<in> set ?R" and h: "h = to_heading e"
      unfolding doc_outline_ranked by auto
    have ht: "h_text h = ld_text (snd e)" "h_page h = ld_page (snd e)"
      unfolding h by (simp_all add: to_heading_def)
    from A[rule_format, OF e] show "h_text h \<noteq> ?t \<and>
      length (py_split (h_text h)) < 40 \<and>
      \<not> endswith (h_text h) ''.'' \<and> \<not> endswith (h_text h) '':'' \<and>
      (\<exists>l\<in>set (doc_lines doc). h_text h = ld_text l \<and> h_page h = ld_page l \<and>
         Some (ld_style l) \<noteq> doc_body_style doc)"
      unfolding ht by blast
  qed
  have C: "doc_lines doc \<noteq> [] \<longrightarrow>
      (\<exists>b. doc_body_style doc = Some b \<and> b \<in> ld_style ` set (doc_lines doc) \<and>
         (\<forall>s. count_list (map ld_style (doc_lines doc)) s
                \<le> count_list (map ld_style (doc_lines doc)) b) \<and>
         (\<exists>p q. map ld_style (doc_lines doc) = p @ b # q \<and> b \<notin> set p \<and>
            (\<forall>s\<in>set p. count_list (map ld_style (doc_lines doc)) s
                          < count_list (map ld_style (doc_lines doc)) b)))"
  proof
    assume "doc_lines doc \<noteq> []"
    from doc_body_style_mode[OF this] obtain b where
      b: "doc_body_style doc = Some b" and fm: "first_mode ld_style (\<lambda>_. 1) (doc_lines doc) b"
      by blast
    have mem: "b \<in> ld_style ` set (doc_lines doc)" using fm by (rule first_mode_mem)
    from fm have mx: "\<forall>s. count_list (map ld_style (doc_lines doc)) s
                \<le> count_list (map ld_style (doc_lines doc)) b"
      unfolding first_mode_def key_weight_count by blast
    from fm have fs: "\<exists>p q. map ld_style (doc_lines doc) = p @ b # q \<and> b \<notin> set p \<and>
            (\<forall>s\<in>set p. count_list (map ld_style (doc_lines doc)) s
                          < count_list (map ld_style (doc_lines doc)) b)"
      unfolding first_mode_def key_weight_count by blast
    from b mem mx fs show "\<exists>b. doc_body_style doc = Some b \<and> b \<in> ld_style ` set (doc_lines doc) \<and>
         (\<forall>s. count_list (map ld_style (doc_lines doc)) s
                \<le> count_list (map ld_style (doc_lines doc)) b) \<and>
         (\<exists>p q. map ld_style (doc_lines doc) = p @ b # q \<and> b \<notin> set p \<and>
            (\<forall>s\<in>set p. count_list (map ld_style (doc_lines doc)) s
                          < count_list (map ld_style (doc_lines doc)) b))" by blast
  qed
  from A B C show ?thesis by (intro conjI)
qed

lemma doc_report_result:
  "process_pdf_to_outline doc_report =
     \<lparr>doc_title = ''Project Report'',
      doc_outline =
        [\<lparr>h_level = ''H1'', h_text = ''1. Intro'', h_page = 1\<rparr>,
         \<lparr>h_level = ''H1'', h_text = ''2. Methods'', h_page = 1\<rparr>,
         \<lparr>h_level = ''H1'', h_text = ''3. Results'', h_page = 1\<rparr>]\<rparr>"
  by code_simp

lemma doc_report_candidates:
  "map ld_text (doc_candidates doc_report) =
     [''1. Intro'', ''2. Methods'', ''Table 4.2: Revenue by Region.'', ''3. Results'']"
  by code_simp

lemma doc_report_body: "doc_body_style doc_report = Some (10, False, 0)"
  by code_simp

theorem outline_filter_witness:
  "doc_body_style doc_report = Some (10, False, 0) \<and>
   map ld_text (doc_candidates doc_report) =
     [''1. Intro'', ''2. Methods'', ''Table 4.2: Revenue by Region.'', ''3. Results''] \<and>
   endswith ''Table 4.2: Revenue by Region.'' ''.'' \<and>
   ''Table 4.2: Revenue by Region.'' \<notin> h_text ` set (doc_outline (process_pdf_to_outline doc_report)) \<and>
   map h_text (doc_outline (process_pdf_to_outline doc_report)) =
     [''1. Intro'', ''2. Methods'', ''3. Results'']"
proof -
  have e: "endswith ''Table 4.2: Revenue by Region.'' ''.''"
    by (simp add: endswith_def)
  from outline_filter[of doc_report]
  have a: "\<forall>h\<in>set (doc_outline (process_pdf_to_outline doc_report)). \<not> endswith (h_text h) ''.''"
    by blast
  have n: "''Table 4.2: Revenue by Region.'' \<notin>
      h_text ` set (doc_outline (process_pdf_to_outline doc_report))"
  proof
    assume "''Table 4.2: Revenue by Region.'' \<in>
      h_text ` set (doc_outline (process_pdf_to_outline doc_report))"
    then obtain h where h: "h \<in> set (doc_outline (process_pdf_to_outline doc_report))"
      and t: "h_text h = ''Table 4.2: Revenue by Region.''" by (auto simp: image_iff)
    from a[rule_format, OF h] e show False unfolding t by (rule notE)
  qed
  have o: "map h_text (doc_outline (process_pdf_to_outline doc_report)) =
     [''1. Intro'', ''2. Methods'', ''3. Results'']"
    by (simp add: doc_report_result)
  from doc_report_body doc_report_candidates e n o show ?thesis by (intro conjI)
qed

end
